theory Spec2Isabelle
  imports Main "HOL-Library.Multiset"
begin

section \<open>Python values and failures\<close>

text \<open>
  Python integers are unbounded: they are \<open>int\<close> throughout.  Every exception the
  modelled code can raise is a value of \<open>py_error\<close>; a function that can raise
  returns \<open>py_error + 'a\<close> with \<open>Inl\<close> for the exception.
\<close>

datatype py_error = IndexError | ValueError | ZeroDivisionError | TypeError | FileNotFoundError

text \<open>
  \<open>xs[i] = v\<close> and \<open>xs[i]\<close> on a Python list: a negative index counts from the end,
  an index outside \<open>[-len, len)\<close> raises IndexError.
\<close>

definition py_index :: "'a list \<Rightarrow> int \<Rightarrow> py_error + nat" where
  "py_index xs i =
     (let n = int (length xs); j = (if i < 0 then i + n else i)
      in if 0 \<le> j \<and> j < n then Inr (nat j) else Inl IndexError)"

definition py_getitem :: "'a list \<Rightarrow> int \<Rightarrow> py_error + 'a" where
  "py_getitem xs i = (case py_index xs i of Inl e \<Rightarrow> Inl e | Inr j \<Rightarrow> Inr (xs ! j))"

definition py_setitem :: "'a list \<Rightarrow> int \<Rightarrow> 'a \<Rightarrow> py_error + 'a list" where
  "py_setitem xs i v = (case py_index xs i of Inl e \<Rightarrow> Inl e | Inr j \<Rightarrow> Inr (xs[j := v]))"

section \<open>The voter client (voter.py)\<close>

record voter_client =
  voter_id :: int
  vote :: int
  total_voters :: int
  total_candidates :: int
  voting_vector_size :: int
  location_share :: "int option"
  random_shares_collector1 :: "int list"
  random_shares_collector2 :: "int list"
  secret_ballot :: "int list"

text \<open>\<open>VoterClient.__init__\<close>; the collectors' addresses play no part in what follows.\<close>

definition VoterClient :: "int \<Rightarrow> int \<Rightarrow> int \<Rightarrow> int \<Rightarrow> voter_client" where
  "VoterClient vid v tv tc =
     \<lparr> voter_id = vid, vote = v, total_voters = tv, total_candidates = tc,
       voting_vector_size = tv * tc, location_share = None,
       random_shares_collector1 = [], random_shares_collector2 = [],
       secret_ballot = [] \<rparr>"

text \<open>
  \<open>compute_voting_vector\<close>: \<open>[0] * n\<close> is the empty list for \<open>n \<le> 0\<close>; a
  location share that is still \<open>None\<close> makes the subtraction raise TypeError.
\<close>

definition compute_voting_vector :: "voter_client \<Rightarrow> py_error + int list" where
  "compute_voting_vector self =
     (let voting_vector = replicate (nat (voting_vector_size self)) (0::int);
          choice_index = vote self
      in case location_share self of
           None \<Rightarrow> Inl TypeError
         | Some ls \<Rightarrow>
             py_setitem voting_vector ((ls - 1) * total_candidates self + choice_index) 1)"

text \<open>
  \<open>compute_numbers\<close>: the \<open>for i, val in enumerate(voting_vector)\<close> loop that stops at
  the first entry equal to 1.  \<open>2 ** e\<close> is an integer only for \<open>e \<ge> 0\<close>; for a
  negative exponent Python computes a float, which is the value \<open>None\<close> here.  That
  can only happen on a vector longer than \<open>voting_vector_size\<close>.
\<close>

fun compute_numbers_from :: "int \<Rightarrow> int \<Rightarrow> int list \<Rightarrow> (int \<times> int) option" where
  "compute_numbers_from sz i [] = Some (0, 0)"
| "compute_numbers_from sz i (val # rest) =
     (if val = 1
      then (if 0 \<le> sz - i - 1 then Some (2 ^ nat i, 2 ^ nat (sz - i - 1)) else None)
      else compute_numbers_from sz (i + 1) rest)"

definition compute_numbers :: "voter_client \<Rightarrow> int list \<Rightarrow> (int \<times> int) option" where
  "compute_numbers self voting_vector =
     compute_numbers_from (voting_vector_size self) 0 voting_vector"

text \<open>
  The blinding step of \<open>vote_process\<close> (lines 148-150): each component of the encoded
  ballot plus the first collector's and the second collector's random share.
\<close>

definition blind :: "int \<times> int \<Rightarrow> int \<times> int \<Rightarrow> int \<times> int \<Rightarrow> int \<times> int" where
  "blind numbers shares1 shares2 =
     (fst numbers + fst shares1 + fst shares2, snd numbers + snd shares1 + snd shares2)"

subsection \<open>Location shares: the probe loop and the shared file\<close>

text \<open>
  Lines 123-125 of \<open>vote_process\<close>.  Python's \<open>%\<close> takes the sign of the divisor, as
  \<open>mod\<close> on \<open>int\<close> does; a zero divisor raises.
\<close>

definition wrap_share :: "int \<Rightarrow> int \<Rightarrow> int" where
  "wrap_share tv x = (let y = x mod tv in if y = 0 then tv else y)"

definition initial_share :: "int \<Rightarrow> int \<Rightarrow> int \<Rightarrow> py_error + int" where
  "initial_share tv location_share1 location_share2 =
     (if tv = 0 then Inl ZeroDivisionError
      else Inr (wrap_share tv (location_share1 + location_share2)))"

text \<open>
  The loop of lines 128-131, \<open>while computed_share in assigned_shares\<close>.  Nothing in
  the code bounds it, so it is a partial function: \<open>None\<close> is a loop that never ends.
\<close>

partial_function (option) probe :: "int \<Rightarrow> int list \<Rightarrow> int \<Rightarrow> (py_error + int) option" where
  "probe tv assigned_shares computed_share =
     (if computed_share \<in> set assigned_shares
      then (if tv = 0 then Some (Inl ZeroDivisionError)
            else probe tv assigned_shares (wrap_share tv (computed_share + 1)))
      else Some (Inr computed_share))"

text \<open>
  The same loop cut off after \<open>n\<close> executions of its body: \<open>None\<close> when the loop
  condition still holds after \<open>n\<close> steps.
\<close>

fun probe_within :: "nat \<Rightarrow> int \<Rightarrow> int list \<Rightarrow> int \<Rightarrow> (py_error + int) option" where
  "probe_within 0 tv assigned_shares computed_share =
     (if computed_share \<in> set assigned_shares then None else Some (Inr computed_share))"
| "probe_within (Suc n) tv assigned_shares computed_share =
     (if computed_share \<in> set assigned_shares
      then (if tv = 0 then Some (Inl ZeroDivisionError)
            else probe_within n tv assigned_shares (wrap_share tv (computed_share + 1)))
      else Some (Inr computed_share))"

text \<open>
  How many values lie between \<open>x\<close> and \<open>y\<close> when counting upwards from \<open>x\<close>
  and wrapping from \<open>tv\<close> to 1: the number of steps the loop needs from \<open>x\<close> to
  reach \<open>y\<close>.
\<close>

definition ahead :: "int \<Rightarrow> int \<Rightarrow> int \<Rightarrow> nat" where
  "ahead tv x y = nat (if x \<le> y then y - x else y - x + tv)"







section \<open>Text on the wire\<close>

text \<open>
  Messages are the text \<open>conn.recv(1024).decode()\<close> returns; the model covers ASCII
  text.  \<open>str.strip\<close> removes the characters \<open>str.isspace\<close> accepts, \<open>int\<close>
  skips the smaller set of C's \<open>isspace\<close> around the number.
\<close>

definition startswith :: "string \<Rightarrow> string \<Rightarrow> bool" where
  "startswith s p = (take (length p) s = p)"

definition str_isspace :: "char \<Rightarrow> bool" where
  "str_isspace c = (c \<in> set [CHR 0x09, CHR 0x0A, CHR 0x0B, CHR 0x0C, CHR 0x0D,
                               CHR 0x1C, CHR 0x1D, CHR 0x1E, CHR 0x1F, CHR 0x20])"

definition int_isspace :: "char \<Rightarrow> bool" where
  "int_isspace c = (c \<in> set [CHR 0x09, CHR 0x0A, CHR 0x0B, CHR 0x0C, CHR 0x0D, CHR 0x20])"

definition strip_with :: "(char \<Rightarrow> bool) \<Rightarrow> string \<Rightarrow> string" where
  "strip_with sp s = rev (dropWhile sp (rev (dropWhile sp s)))"

definition strip :: "string \<Rightarrow> string" where
  "strip s = strip_with str_isspace s"

text \<open>\<open>s.split(",")\<close>: never empty, one field more than there are commas.\<close>

fun split_comma :: "string \<Rightarrow> string list" where
  "split_comma [] = [[]]"
| "split_comma (c # cs) =
     (if c = CHR '','' then [] # split_comma cs
      else (case split_comma cs of [] \<Rightarrow> [[c]] | f # fs \<Rightarrow> (c # f) # fs))"

text \<open>
  \<open>int(s)\<close> on ASCII text: optional surrounding whitespace, an optional sign, then
  decimal digits, where single underscores may stand between digits.  \<open>None\<close> is
  the ValueError.
\<close>

definition digit_of :: "char \<Rightarrow> nat option" where
  "digit_of c =
     (let k = (of_char c :: nat)
      in if of_char CHR ''0'' \<le> k \<and> k \<le> of_char CHR ''9''
         then Some (k - of_char CHR ''0'') else None)"

fun digits_from :: "nat \<Rightarrow> string \<Rightarrow> nat option" where
  "digits_from acc [] = Some acc"
| "digits_from acc [c] =
     (case digit_of c of None \<Rightarrow> None | Some d \<Rightarrow> Some (acc * 10 + d))"
| "digits_from acc (c # c' # cs) =
     (if c = CHR ''_''
      then (case digit_of c' of None \<Rightarrow> None | Some d \<Rightarrow> digits_from (acc * 10 + d) cs)
      else (case digit_of c of None \<Rightarrow> None | Some d \<Rightarrow> digits_from (acc * 10 + d) (c' # cs)))"

definition py_nat :: "string \<Rightarrow> nat option" where
  "py_nat s =
     (case s of [] \<Rightarrow> None
      | c # cs \<Rightarrow> (case digit_of c of None \<Rightarrow> None | Some d \<Rightarrow> digits_from d cs))"

definition py_int :: "string \<Rightarrow> int option" where
  "py_int s =
     (case strip_with int_isspace s of
        [] \<Rightarrow> None
      | c # cs \<Rightarrow>
          if c = CHR ''+'' then map_option int (py_nat cs)
          else if c = CHR ''-'' then map_option (\<lambda>n. - int n) (py_nat cs)
          else map_option int (py_nat (c # cs)))"

text \<open>\<open>str(n)\<close> of an integer, as the f-strings render it.\<close>

fun digits10 :: "nat \<Rightarrow> string" where
  "digits10 n =
     (if n < 10 then [char_of (of_char CHR ''0'' + n)]
      else digits10 (n div 10) @ [char_of (of_char CHR ''0'' + n mod 10)])"

declare digits10.simps [simp del]

definition py_str :: "int \<Rightarrow> string" where
  "py_str n = (if n < 0 then CHR ''-'' # digits10 (nat (- n)) else digits10 (nat n))"

text \<open>
  \<open>bin(n)\<close>: the sign, the prefix \<open>0b\<close> and the binary digits without leading zeros.
\<close>

definition bit_char :: "bool \<Rightarrow> char" where
  "bit_char b = (if b then CHR ''1'' else CHR ''0'')"

fun bin_digits :: "nat \<Rightarrow> string" where
  "bin_digits n =
     (if n < 2 then [bit_char (n = 1)]
      else bin_digits (n div 2) @ [bit_char (n mod 2 = 1)])"

declare bin_digits.simps [simp del]

definition py_bin :: "int \<Rightarrow> string" where
  "py_bin n = (if n < 0 then ''-0b'' @ bin_digits (nat (- n)) else ''0b'' @ bin_digits (nat n))"

text \<open>
  \<open>s.zfill(width)\<close>: zeros on the left up to \<open>width\<close> characters, after a leading
  sign; a string that is long enough already is returned as it is.
\<close>

definition zfill :: "string \<Rightarrow> int \<Rightarrow> string" where
  "zfill s width =
     (if width \<le> int (length s) then s
      else (let fill = replicate (nat (width - int (length s))) CHR ''0''
            in case s of
                 [] \<Rightarrow> fill
               | c # cs \<Rightarrow> if c = CHR ''+'' \<or> c = CHR ''-'' then c # fill @ cs else fill @ s))"

text \<open>\<open>range(start, stop, step)\<close> as a list; a zero step raises ValueError.\<close>

definition py_range :: "int \<Rightarrow> int \<Rightarrow> int \<Rightarrow> py_error + int list" where
  "py_range start stop step =
     (if step = 0 then Inl ValueError
      else if 0 < step
      then Inr (map (\<lambda>k. start + int k * step) [0..<nat ((stop - start + step - 1) div step)])
      else Inr (map (\<lambda>k. start + int k * step) [0..<nat ((start - stop - step - 1) div (- step))]))"

text \<open>\<open>s[lo:hi]\<close>: negative bounds count from the end, both are clamped to the string.\<close>

definition slice_bound :: "nat \<Rightarrow> int \<Rightarrow> nat" where
  "slice_bound n i = (if i < 0 then nat (max 0 (i + int n)) else min (nat i) n)"

definition py_slice :: "'a list \<Rightarrow> int \<Rightarrow> int \<Rightarrow> 'a list" where
  "py_slice s lo hi =
     (let a = slice_bound (length s) lo; b = slice_bound (length s) hi
      in take (b - a) (drop a s))"

section \<open>The collector (collector.py)\<close>

text \<open>
  The three aggregates are Python lists that always hold two integers (\<open>[0, 0]\<close> at
  first, later two sums or two parsed numbers); they are pairs here.  What the collector
  prints is a list of \<open>printed\<close> values, one per \<open>print\<close>, and what it sends on a
  connection a list of \<open>reply\<close> values.
\<close>

record collector_server =
  host :: string
  port :: int
  total_voters_c :: int
  is_collector1 :: bool
  received_ballots :: "(int \<times> int) list"
  random_shares :: "(int \<times> int) list"
  secret_ballot_aggregate :: "int \<times> int"
  random_share_aggregate :: "int \<times> int"
  peer_random_share_aggregate :: "int \<times> int"
  stop_accepting :: bool
  candidates :: "string list"
  location_shares :: "int list"

datatype printed =
    Error_handling_voter_or_peer py_error
  | Votes_from_Result nat "(string \<times> nat) list"
  | Received_Secret_Ballot int int
  | Sent_Location_Share bool int int int int
  | Error_processing_voter_message py_error
  | Received_Random_Share_Aggregate_from_Peer "int \<times> int"
  | Secret_Ballot_Aggregate "int \<times> int"
  | Random_Share_Aggregate "int \<times> int"
  | Peer_Random_Share_Aggregate "int \<times> int"
  | Final_Result "int \<times> int"
  | Unknown_message_from_peer string
  | Error_processing_peer_message py_error
  | No_Secret_Ballots_Received
  | No_Random_Shares_Generated

datatype reply = ACK | Share_response string

record connection =
  sent :: "reply list"
  closed :: bool

definition new_connection :: connection where
  "new_connection = \<lparr> sent = [], closed = False \<rparr>"

text \<open>
  \<open>generate_unique_location_shares\<close>: the loop draws until it holds
  \<open>total_voters\<close> different values.  The numbers \<open>random.randint\<close> returns are
  given as the list \<open>draws\<close>; \<open>None\<close> when the list is used up while the loop is
  still running.
\<close>

fun generate_unique_location_shares :: "int \<Rightarrow> int list \<Rightarrow> int list \<Rightarrow> int list option" where
  "generate_unique_location_shares tv [] shares =
     (if int (length shares) < tv then None else Some shares)"
| "generate_unique_location_shares tv (share # draws) shares =
     (if int (length shares) < tv
      then generate_unique_location_shares tv draws
             (if share \<notin> set shares then shares @ [share] else shares)
      else Some shares)"

text \<open>
  \<open>CollectorServer.__init__\<close>.  The candidate list is read from the configuration
  file and the partial location shares are what \<open>generate_unique_location_shares\<close>
  returned; both are parameters.
\<close>

definition CollectorServer ::
  "string \<Rightarrow> int \<Rightarrow> int \<Rightarrow> bool \<Rightarrow> string list \<Rightarrow> int list \<Rightarrow> collector_server" where
  "CollectorServer h p tv c1 cands shares =
     \<lparr> host = h, port = p, total_voters_c = tv, is_collector1 = c1,
       received_ballots = [], random_shares = [],
       secret_ballot_aggregate = (0, 0), random_share_aggregate = (0, 0),
       peer_random_share_aggregate = (0, 0), stop_accepting = False,
       candidates = cands, location_shares = shares \<rparr>"

text \<open>\<open>generate_random_shares\<close>, with the two numbers drawn given as \<open>rnd\<close>.\<close>

definition generate_random_shares :: "int \<times> int \<Rightarrow> collector_server \<Rightarrow> collector_server" where
  "generate_random_shares rnd self = self\<lparr>random_shares := random_shares self @ [rnd]\<rparr>"

subsection \<open>Tally\<close>

text \<open>
  The inner loops of \<open>tally_votes\<close>.  \<open>vote_counts\<close> is a dictionary whose keys are
  the candidates; the only key read or written is \<open>candidates[idx]\<close> with
  \<open>idx < len(split) \<le> len(candidates)\<close>, so no lookup can fail and the dictionary is
  a function from names to counts.
\<close>

fun count_split :: "string list \<Rightarrow> nat \<Rightarrow> string \<Rightarrow> (string \<Rightarrow> nat) \<Rightarrow> (string \<Rightarrow> nat)" where
  "count_split cands idx [] vote_counts = vote_counts"
| "count_split cands idx (b # bs) vote_counts =
     count_split cands (Suc idx) bs
       (if b = CHR ''1''
        then vote_counts(cands ! idx := vote_counts (cands ! idx) + 1)
        else vote_counts)"

fun count_splits :: "string list \<Rightarrow> string list \<Rightarrow> (string \<Rightarrow> nat) \<Rightarrow> (string \<Rightarrow> nat)" where
  "count_splits cands [] vote_counts = vote_counts"
| "count_splits cands (split # splits) vote_counts =
     count_splits cands splits (count_split cands 0 split vote_counts)"

text \<open>One round of the outer loop of \<open>tally_votes\<close>: the line printed for result \<open>i\<close>.\<close>

definition tally_number :: "collector_server \<Rightarrow> nat \<Rightarrow> int \<Rightarrow> string list \<Rightarrow> py_error + printed" where
  "tally_number self i number cands =
     (let candidate_count = int (length cands);
          voter_count = total_voters_c self;
          binary_length = voter_count * candidate_count;
          padded = zfill (drop 2 (py_bin number)) binary_length;
          binary_representation = (if i = 0 then rev padded else padded)
      in case py_range 0 binary_length candidate_count of
           Inl e \<Rightarrow> Inl e
         | Inr js \<Rightarrow>
             (let vote_splits = map (\<lambda>j. py_slice binary_representation j (j + candidate_count)) js;
                  vote_counts = count_splits cands vote_splits (\<lambda>candidate. 0)
              in Inr (Votes_from_Result (i + 1) (map (\<lambda>candidate. (candidate, vote_counts candidate)) cands))))"

definition tally_votes :: "collector_server \<Rightarrow> int \<times> int \<Rightarrow> string list \<Rightarrow> py_error + printed list" where
  "tally_votes self final_result cands =
     (case tally_number self 0 (fst final_result) cands of
        Inl e \<Rightarrow> Inl e
      | Inr line1 \<Rightarrow>
          (case tally_number self 1 (snd final_result) cands of
             Inl e \<Rightarrow> Inl e
           | Inr line2 \<Rightarrow> Inr [line1, line2]))"

subsection \<open>Aggregation and the peer's frame\<close>

definition compute_aggregates :: "collector_server \<Rightarrow> collector_server \<times> printed list" where
  "compute_aggregates self =
     (let (s1, out1) =
            (if received_ballots self \<noteq> []
             then (self\<lparr>secret_ballot_aggregate :=
                          (sum_list (map fst (received_ballots self)),
                           sum_list (map snd (received_ballots self)))\<rparr>, [])
             else (self, [No_Secret_Ballots_Received]));
          (s2, out2) =
            (if random_shares s1 \<noteq> []
             then (s1\<lparr>random_share_aggregate :=
                        (sum_list (map fst (random_shares s1)),
                         sum_list (map snd (random_shares s1)))\<rparr>, [])
             else (s1, [No_Random_Shares_Generated]))
      in (s2, out1 @ out2))"

text \<open>
  Line 156-157 of \<open>handle_peer_message\<close>: three comma-separated fields, the last two
  integers; anything else raises ValueError before a field of the collector is written.
\<close>

definition parse_aggregate :: "string \<Rightarrow> py_error + int \<times> int" where
  "parse_aggregate data =
     (case split_comma data of
        [_, peer_aggregate_1, peer_aggregate_2] \<Rightarrow>
          (case (py_int peer_aggregate_1, py_int peer_aggregate_2) of
             (Some a1, Some a2) \<Rightarrow> Inr (a1, a2)
           | _ \<Rightarrow> Inl ValueError)
      | _ \<Rightarrow> Inl ValueError)"

text \<open>Lines 164-167: the final calculation.\<close>

definition final_result :: "collector_server \<Rightarrow> int \<times> int" where
  "final_result self =
     (fst (secret_ballot_aggregate self) - fst (random_share_aggregate self)
        - fst (peer_random_share_aggregate self),
      snd (secret_ballot_aggregate self) - snd (random_share_aggregate self)
        - snd (peer_random_share_aggregate self))"

definition handle_peer_message :: "collector_server \<Rightarrow> string \<Rightarrow> collector_server \<times> printed list" where
  "handle_peer_message self data =
     (if startswith data ''AGGREGATE''
      then (case parse_aggregate data of
              Inl e \<Rightarrow> (self, [Error_processing_peer_message e])
            | Inr peer \<Rightarrow>
                (let s1 = self\<lparr>peer_random_share_aggregate := peer\<rparr>;
                     out1 = [Received_Random_Share_Aggregate_from_Peer peer];
                     (s2, out2) = compute_aggregates s1;
                     result = final_result s2;
                     out3 = [Secret_Ballot_Aggregate (secret_ballot_aggregate s2),
                             Random_Share_Aggregate (random_share_aggregate s2),
                             Peer_Random_Share_Aggregate (peer_random_share_aggregate s2),
                             Final_Result result]
                 in case tally_votes s2 result (candidates s2) of
                      Inl e \<Rightarrow> (s2, out1 @ out2 @ out3 @ [Error_processing_peer_message e])
                    | Inr lines \<Rightarrow> (s2, out1 @ out2 @ out3 @ lines)))
      else (self, [Unknown_message_from_peer data]))"

subsection \<open>Voter messages\<close>

text \<open>
  Line 126, \<open>n1, n2 = map(int, data.split(","))\<close>: exactly two fields, both integers;
  every other shape raises ValueError.
\<close>

definition parse_ballot :: "string \<Rightarrow> py_error + int \<times> int" where
  "parse_ballot data =
     (case map py_int (split_comma data) of
        [Some n1, Some n2] \<Rightarrow> Inr (n1, n2)
      | _ \<Rightarrow> Inl ValueError)"

definition handle_voter_message ::
  "int \<times> int \<Rightarrow> collector_server \<Rightarrow> string \<Rightarrow> connection \<Rightarrow>
   collector_server \<times> connection \<times> printed list" where
  "handle_voter_message rnd self data conn =
     (if CHR '','' \<in> set data
      then (case parse_ballot data of
              Inl e \<Rightarrow> (self, conn, [Error_processing_voter_message e])
            | Inr (n1, n2) \<Rightarrow>
                (self\<lparr>received_ballots := received_ballots self @ [(n1, n2)]\<rparr>,
                 conn\<lparr>sent := sent conn @ [ACK]\<rparr>,
                 [Received_Secret_Ballot n1 n2]))
      else (case py_int data of
              None \<Rightarrow> (self, conn, [Error_processing_voter_message ValueError])
            | Some vid \<Rightarrow>
                (case py_getitem (location_shares self) (vid - 1) of
                   Inl e \<Rightarrow> (self, conn, [Error_processing_voter_message e])
                 | Inr ls \<Rightarrow>
                     (generate_random_shares rnd self,
                      conn\<lparr>sent := sent conn @
                         [Share_response (py_str ls @ '','' @ py_str (fst rnd) @ '','' @ py_str (snd rnd))]\<rparr>,
                      [Sent_Location_Share (is_collector1 self) ls (fst rnd) (snd rnd) vid]))))"

text \<open>
  \<open>handle_voter\<close>, the handler of every inbound connection: \<open>raw\<close> is the decoded
  text received, \<open>rnd\<close> the random shares drawn if the message asks for shares.  The
  connection is closed whatever happens.
\<close>

definition handle_voter ::
  "int \<times> int \<Rightarrow> collector_server \<Rightarrow> string \<Rightarrow> connection \<Rightarrow>
   collector_server \<times> connection \<times> printed list" where
  "handle_voter rnd self raw conn =
     (let data = strip raw
      in if startswith data ''AGGREGATE''
         then (let (s1, out) = handle_peer_message self data in (s1, conn\<lparr>closed := True\<rparr>, out))
         else (let (s1, c1, out) = handle_voter_message rnd self data conn
               in (s1, c1\<lparr>closed := True\<rparr>, out)))"

subsection \<open>The run of a collector\<close>

text \<open>
  The two places that accept connections.  \<open>accept_voter_connections\<close> starts one
  \<open>handle_voter\<close> per connection; the handlers are taken here in the order in which
  they run.  \<open>accept_peer_connection\<close> passes its one connection to the same handler.
\<close>

datatype endpoint = Voter_endpoint | Peer_endpoint

definition accept_on ::
  "endpoint \<Rightarrow> int \<times> int \<Rightarrow> collector_server \<Rightarrow> string \<Rightarrow>
   collector_server \<times> connection \<times> printed list" where
  "accept_on ep rnd self raw =
     (case ep of
        Voter_endpoint \<Rightarrow> handle_voter rnd self raw new_connection
      | Peer_endpoint \<Rightarrow> handle_voter rnd self raw new_connection)"


definition send_to_peer :: "collector_server \<Rightarrow> string" where
  "send_to_peer self =
     ''AGGREGATE,'' @ py_str (fst (random_share_aggregate self)) @ '','' @
       py_str (snd (random_share_aggregate self))"


subsection \<open>What a voter contributes\<close>

text \<open>
  A voter is taken as the encoded ballot \<open>(number1, number2)\<close> with the random
  shares the first and the second collector handed to it.  \<open>ballot_of\<close> is the
  secret ballot \<open>vote_process\<close> sends to both collectors, \<open>shares_of\<close> the pair
  a collector appended to its \<open>random_shares\<close> for this voter.
\<close>

type_synonym voter_numbers = "(int \<times> int) \<times> (int \<times> int) \<times> (int \<times> int)"

definition ballot_of :: "voter_numbers \<Rightarrow> int \<times> int" where
  "ballot_of v = (case v of (numbers, shares1, shares2) \<Rightarrow> blind numbers shares1 shares2)"

definition shares_of :: "bool \<Rightarrow> voter_numbers \<Rightarrow> int \<times> int" where
  "shares_of collector1 v =
     (case v of (numbers, shares1, shares2) \<Rightarrow> if collector1 then shares1 else shares2)"

section \<open>The voting vector and the encoded ballot\<close>

lemma compute_numbers_from_zeros:
  "compute_numbers_from sz i (replicate k 0 @ xs) = compute_numbers_from sz (i + int k) xs"
  by (induction k arbitrary: i) (simp_all add: algebra_simps)

lemma replicate_update_one:
  "(replicate (a + Suc b) x)[a := y] = replicate a x @ [y] @ replicate b x"
  by (induction a) simp_all

text \<open>
  C2.  A voter with location share \<open>L\<close> in \<open>[1, V]\<close> who chose candidate index \<open>c\<close> in
  \<open>[0, C - 1]\<close>: with \<open>pos = (L - 1) * C + c\<close>, which lies in \<open>[0, V * C - 1]\<close>,
  \<open>compute_voting_vector\<close> returns the vector of length \<open>V * C\<close> that is 1 at index
  \<open>pos\<close> and 0 everywhere else, and \<open>compute_numbers\<close> turns it into
  \<open>(2 ^ pos, 2 ^ (V * C - 1 - pos))\<close>.
\<close>

theorem C2_encoded_ballot:
  fixes vid L V C c :: int
  assumes "1 \<le> L" "L \<le> V" "0 \<le> c" "c < C"
  defines "pos \<equiv> (L - 1) * C + c"
  defines "self \<equiv> (VoterClient vid c V C)\<lparr>location_share := Some L\<rparr>"
  shows "0 \<le> pos \<and> pos < V * C \<and>
         compute_voting_vector self =
           Inr (replicate (nat pos) 0 @ [1] @ replicate (nat (V * C - 1 - pos)) 0) \<and>
         compute_numbers self (replicate (nat pos) 0 @ [1] @ replicate (nat (V * C - 1 - pos)) 0) =
           Some (2 ^ nat pos, 2 ^ nat (V * C - 1 - pos))"
proof -
  have p0: "0 \<le> pos" using assms by (simp add: pos_def)
  have "(L - 1) * C + c < (L - 1) * C + C" using assms by simp
  also have "\<dots> = L * C" by (simp add: algebra_simps)
  also have "\<dots> \<le> V * C" using assms by (simp add: mult_right_mono)
  finally have p1: "pos < V * C" by (simp add: pos_def)
  have upd: "(replicate (nat (V * C)) (0::int))[nat pos := 1] =
             replicate (nat pos) 0 @ [1] @ replicate (nat (V * C - 1 - pos)) 0"
  proof -
    have "nat (V * C) = nat pos + Suc (nat (V * C - 1 - pos))" using p0 p1 by linarith
    then show ?thesis
      using replicate_update_one [of "nat pos" "nat (V * C - 1 - pos)" 0 1] by simp
  qed
  have vv: "compute_voting_vector self =
           Inr (replicate (nat pos) 0 @ [1] @ replicate (nat (V * C - 1 - pos)) 0)"
    using p0 p1 upd
    by (simp add: compute_voting_vector_def self_def VoterClient_def py_setitem_def
        py_index_def pos_def Let_def)
  have "compute_numbers self (replicate (nat pos) 0 @ [1] @ replicate (nat (V * C - 1 - pos)) 0) =
           Some (2 ^ nat pos, 2 ^ nat (V * C - 1 - pos))"
    using p0 p1
    by (simp add: compute_numbers_def compute_numbers_from_zeros self_def VoterClient_def)
  with p0 p1 vv show ?thesis by simp
qed

text \<open>
  The voter at location 2 of 3 who chose the second of 4 candidates: position 5 of 12.
\<close>

theorem C2_encoded_ballot_witness:
  "compute_voting_vector ((VoterClient 7 1 3 4)\<lparr>location_share := Some 2\<rparr>) =
     Inr [0, 0, 0, 0, 0, 1, 0, 0, 0, 0, 0, 0] \<and>
   compute_numbers ((VoterClient 7 1 3 4)\<lparr>location_share := Some 2\<rparr>)
     [0, 0, 0, 0, 0, 1, 0, 0, 0, 0, 0, 0] = Some (32, 64)"
proof -
  have r: "replicate 5 (0::int) @ 1 # replicate 6 0 = [0, 0, 0, 0, 0, 1, 0, 0, 0, 0, 0, 0]"
    by code_simp
  show ?thesis
    using C2_encoded_ballot [of 2 3 1 4 7] by (simp add: r)
qed

section \<open>The probe loop ends\<close>

text \<open>The value a voter proposes (lines 123-125) lies in \<open>[1, tv]\<close>.\<close>

lemma initial_share_range:
  assumes "0 < tv" "initial_share tv location_share1 location_share2 = Inr x"
  shows "1 \<le> x \<and> x \<le> tv"
proof -
  define y where "y = (location_share1 + location_share2) mod tv"
  have y: "0 \<le> y" "y < tv" using assms(1) by (simp_all add: y_def)
  have "x = (if y = 0 then tv else y)"
    using assms by (auto simp: initial_share_def wrap_share_def Let_def y_def split: if_splits)
  then show ?thesis using y assms(1) by (cases "y = 0") simp_all
qed

lemma wrap_share_succ:
  assumes "1 \<le> x" "x \<le> tv"
  shows "wrap_share tv (x + 1) = (if x = tv then 1 else x + 1)"
proof -
  consider "x = tv" "tv = 1" | "x = tv" "1 < tv" | "x + 1 = tv" | "x + 1 < tv"
    using assms by linarith
  then show ?thesis
  proof cases
    case 1
    then show ?thesis by (simp add: wrap_share_def)
  next
    case 2
    then have "(x + 1) mod tv = 1" by simp
    then show ?thesis using 2 by (simp add: wrap_share_def)
  next
    case 3
    then have "(x + 1) mod tv = 0" by simp
    then show ?thesis using 3 by (simp add: wrap_share_def)
  next
    case 4
    then have "(x + 1) mod tv = x + 1" using assms by simp
    then show ?thesis using 4 assms by (simp add: wrap_share_def)
  qed
qed

lemma wrap_share_range:
  assumes "1 \<le> x" "x \<le> tv"
  shows "1 \<le> wrap_share tv (x + 1) \<and> wrap_share tv (x + 1) \<le> tv"
  using assms by (auto simp: wrap_share_succ)

lemma ahead_step:
  assumes "1 \<le> x" "x \<le> tv" "1 \<le> y" "y \<le> tv" "x \<noteq> y"
  shows "Suc (ahead tv (wrap_share tv (x + 1)) y) = ahead tv x y"
  using assms by (auto simp: wrap_share_succ ahead_def)

text \<open>
  A free value \<open>y\<close> that lies \<open>ahead tv x y\<close> steps in front of \<open>x\<close> stops the loop
  after at most that many steps, at \<open>y\<close> or at a free value before it.
\<close>

lemma probe_within_reach:
  assumes "1 \<le> y" "y \<le> tv" "y \<notin> set reg"
  shows "1 \<le> x \<Longrightarrow> x \<le> tv \<Longrightarrow> ahead tv x y \<le> n \<Longrightarrow>
         \<exists>z. probe_within n tv reg x = Some (Inr z) \<and> z \<notin> set reg \<and> 1 \<le> z \<and> z \<le> tv"
proof (induction n arbitrary: x)
  case 0
  then have "x = y" using assms by (auto simp: ahead_def split: if_splits)
  then show ?case using assms by simp
next
  case (Suc n)
  show ?case
  proof (cases "x \<in> set reg")
    case False
    then show ?thesis using Suc.prems by simp
  next
    case True
    then have ne: "x \<noteq> y" using assms by auto
    have tv: "tv \<noteq> 0" using Suc.prems by auto
    have "ahead tv (wrap_share tv (x + 1)) y \<le> n"
      using ahead_step [OF Suc.prems(1,2) assms(1,2) ne] Suc.prems(3) by simp
    from Suc.IH [OF _ _ this] wrap_share_range [OF Suc.prems(1,2)]
    show ?thesis using True tv by simp
  qed
qed

text \<open>What the loop cut off after \<open>n\<close> steps returns, the loop itself returns.\<close>

lemma probe_within_probe:
  "probe_within n tv reg x = Some r \<Longrightarrow> probe tv reg x = Some r"
proof (induction n arbitrary: x)
  case 0
  then show ?case by (subst probe.simps) (simp split: if_splits)
next
  case (Suc n)
  then show ?case by (subst probe.simps) (simp split: if_splits)
qed

lemma free_share_exists:
  assumes "int (length reg) < tv" "set reg \<subseteq> {1..tv}"
  shows "\<exists>y. 1 \<le> y \<and> y \<le> tv \<and> y \<notin> set reg"
proof (rule ccontr)
  assume "\<not> ?thesis"
  then have "{1..tv} \<subseteq> set reg" by auto
  then have "card {1..tv} \<le> card (set reg)" by (intro card_mono) simp_all
  also have "\<dots> \<le> length reg" by (rule card_length)
  finally show False using assms by simp
qed

lemma probe_finds_free:
  assumes "int (length reg) < tv" "set reg \<subseteq> {1..tv}" "1 \<le> x" "x \<le> tv"
  shows "\<exists>y. probe_within (nat tv) tv reg x = Some (Inr y) \<and> probe tv reg x = Some (Inr y) \<and>
             y \<notin> set reg \<and> 1 \<le> y \<and> y \<le> tv"
proof -
  obtain y where y: "1 \<le> y" "y \<le> tv" "y \<notin> set reg"
    using free_share_exists [OF assms(1,2)] by blast
  have "ahead tv x y \<le> nat tv" using assms y by (auto simp: ahead_def)
  from probe_within_reach [OF y assms(3,4) this]
  obtain z where z: "probe_within (nat tv) tv reg x = Some (Inr z)" "z \<notin> set reg" "1 \<le> z" "z \<le> tv"
    by blast
  with probe_within_probe [OF z(1)] show ?thesis by simp
qed

text \<open>
  C8.  When the registry holds fewer than \<open>tv\<close> entries, pairwise distinct and all in
  \<open>[1, tv]\<close>, the probe loop started at any value of \<open>[1, tv]\<close> ends: it has
  returned after at most \<open>tv\<close> executions of its body, with a value of \<open>[1, tv]\<close>
  that the registry does not hold.
\<close>

theorem C8_probe_terminates:
  assumes "int (length reg) < tv" "distinct reg" "set reg \<subseteq> {1..tv}" "1 \<le> x" "x \<le> tv"
  shows "\<exists>y. probe_within (nat tv) tv reg x = Some (Inr y) \<and> probe tv reg x = Some (Inr y) \<and>
             y \<notin> set reg \<and> 1 \<le> y \<and> y \<le> tv"
  using probe_finds_free [OF assms(1,3,4,5)] .

text \<open>Three voters, shares 2 and 3 taken: a probe from 2 wraps round to 1.\<close>

theorem C8_probe_terminates_witness:
  "int (length [2, 3 :: int]) < 3 \<and> distinct [2, 3 :: int] \<and> probe 3 [2, 3] 2 = Some (Inr 1) \<and>
   probe_within (nat 3) 3 [2, 3] 2 = Some (Inr 1)"
proof -
  have s: "set [2, 3 :: int] \<subseteq> {1..3}" by simp
  have w: "probe_within (nat 3) 3 [2, 3] 2 = Some (Inr 1)" by code_simp
  obtain y where "probe_within (nat 3) 3 [2, 3] 2 = Some (Inr y)" "probe 3 [2, 3] 2 = Some (Inr y)"
    using C8_probe_terminates [of "[2, 3]" 3 2] s by auto
  with w show ?thesis by simp
qed

section \<open>Location shares are a permutation\<close>





section \<open>Numbers on the wire are read back as written\<close>

lemma digit_of_char:
  assumes "d < 10"
  shows "digit_of (char_of (of_char CHR ''0'' + d)) = Some d"
proof -
  have "(48 + d) mod 256 = 48 + d" using assms by simp
  then show ?thesis using assms by (simp add: digit_of_def Let_def)
qed

lemma digit_of_Some_cases:
  "digit_of c = Some d \<Longrightarrow>
     c \<noteq> CHR ''_'' \<and> c \<noteq> CHR '','' \<and> c \<noteq> CHR ''+'' \<and> c \<noteq> CHR ''-'' \<and>
     \<not> int_isspace c \<and> \<not> str_isspace c"
  by (auto simp: digit_of_def Let_def int_isspace_def str_isspace_def split: if_splits)

lemma digits_from_digit:
  assumes "digit_of x = Some dx"
  shows "digits_from acc (x # xs) = digits_from (acc * 10 + dx) xs"
  using assms digit_of_Some_cases [OF assms] by (cases xs) simp_all

lemma digits_from_snoc:
  assumes "\<forall>x\<in>set ds. digit_of x \<noteq> None" "digit_of c = Some d"
  shows "digits_from acc (ds @ [c]) = map_option (\<lambda>v. v * 10 + d) (digits_from acc ds)"
  using assms(1)
proof (induction ds arbitrary: acc)
  case Nil
  then show ?case using assms(2) by simp
next
  case (Cons x xs)
  then obtain dx where dx: "digit_of x = Some dx" by auto
  have "digits_from acc ((x # xs) @ [c]) = digits_from (acc * 10 + dx) (xs @ [c])"
    using digits_from_digit [OF dx, of acc "xs @ [c]"] by simp
  also have "\<dots> = map_option (\<lambda>v. v * 10 + d) (digits_from (acc * 10 + dx) xs)"
    using Cons by simp
  also have "digits_from (acc * 10 + dx) xs = digits_from acc (x # xs)"
    using digits_from_digit [OF dx, of acc xs] by simp
  finally show ?case .
qed

lemma digits10_parse:
  "digits10 n \<noteq> [] \<and> (\<forall>x\<in>set (digits10 n). digit_of x \<noteq> None) \<and>
   digits_from 0 (digits10 n) = Some n"
proof (induction n rule: digits10.induct)
  case (1 n)
  show ?case
  proof (cases "n < 10")
    case True
    then have d: "digits10 n = [char_of (of_char CHR ''0'' + n)]"
      by (subst digits10.simps) simp
    show ?thesis
      unfolding d using digit_of_char [OF True] by simp
  next
    case False
    then have d: "digits10 n = digits10 (n div 10) @ [char_of (of_char CHR ''0'' + n mod 10)]"
      by (subst digits10.simps) simp
    have m: "digit_of (char_of (of_char CHR ''0'' + n mod 10)) = Some (n mod 10)"
      by (rule digit_of_char) simp
    note IH = "1.IH" [OF False]
    have "digits_from 0 (digits10 n) = map_option (\<lambda>v. v * 10 + n mod 10) (Some (n div 10))"
      unfolding d using digits_from_snoc [OF _ m, of "digits10 (n div 10)" 0] IH by simp
    then show ?thesis using IH m by (simp add: d)
  qed
qed

lemma py_nat_digits10: "py_nat (digits10 n) = Some n"
proof -
  obtain c cs where c: "digits10 n = c # cs"
    using digits10_parse [of n] by (cases "digits10 n") auto
  then obtain d where d: "digit_of c = Some d"
    using digits10_parse [of n] by auto
  have "digits_from 0 (c # cs) = digits_from d cs"
    using digits_from_digit [OF d, of 0 cs] by simp
  then show ?thesis using digits10_parse [of n] c d by (simp add: py_nat_def)
qed

lemma strip_with_clean:
  assumes "s \<noteq> []" "\<not> sp (hd s)" "\<not> sp (last s)"
  shows "strip_with sp s = s"
proof -
  have 1: "dropWhile sp s = s" using assms(1,2) by (cases s) simp_all
  have "rev s \<noteq> []" "\<not> sp (hd (rev s))" using assms(1,3) by (simp_all add: hd_rev)
  then have 2: "dropWhile sp (rev s) = rev s" by (cases "rev s") simp_all
  show ?thesis by (simp add: strip_with_def 1 2)
qed

lemma py_str_chars:
  "py_str n \<noteq> [] \<and> \<not> int_isspace (hd (py_str n)) \<and> \<not> int_isspace (last (py_str n)) \<and>
   \<not> str_isspace (last (py_str n)) \<and> CHR '','' \<notin> set (py_str n)"
proof -
  note p = digits10_parse
  have ne: "\<And>m. digits10 m \<noteq> []" using p by blast
  have dg: "\<And>m x. x \<in> set (digits10 m) \<Longrightarrow> \<exists>d. digit_of x = Some d" using p by blast
  have h: "\<And>m. \<exists>d. digit_of (hd (digits10 m)) = Some d" using dg ne by (meson hd_in_set)
  have l: "\<And>m. \<exists>d. digit_of (last (digits10 m)) = Some d" using dg ne by (meson last_in_set)
  have nc: "\<And>m. CHR '','' \<notin> set (digits10 m)"
    using dg digit_of_Some_cases by blast
  show ?thesis
  proof (cases "n < 0")
    case True
    then show ?thesis
      using ne [of "nat (- n)"] l [of "nat (- n)"] nc [of "nat (- n)"] digit_of_Some_cases
      by (auto simp: py_str_def int_isspace_def)
  next
    case False
    then show ?thesis
      using ne [of "nat n"] h [of "nat n"] l [of "nat n"] nc [of "nat n"] digit_of_Some_cases
      by (auto simp: py_str_def)
  qed
qed

text \<open>\<open>int(str(n)) == n\<close>.\<close>

lemma py_int_py_str: "py_int (py_str n) = Some n"
proof -
  have s: "strip_with int_isspace (py_str n) = py_str n"
    using py_str_chars [of n] by (intro strip_with_clean) simp_all
  show ?thesis
  proof (cases "n < 0")
    case True
    then show ?thesis
      unfolding py_int_def s by (simp add: py_str_def py_nat_digits10)
  next
    case False
    obtain c cs where c: "digits10 (nat n) = c # cs"
      using digits10_parse [of "nat n"] by (cases "digits10 (nat n)") auto
    then obtain d where d: "digit_of c = Some d"
      using digits10_parse [of "nat n"] by auto
    have "py_nat (c # cs) = Some (nat n)" using py_nat_digits10 [of "nat n"] c by simp
    then show ?thesis
      unfolding py_int_def s using False c digit_of_Some_cases [OF d]
      by (simp add: py_str_def)
  qed
qed

lemma split_comma_field:
  assumes "CHR '','' \<notin> set a"
  shows "split_comma a = [a]" and "split_comma (a @ CHR '','' # rest) = a # split_comma rest"
  using assms by (induction a) (auto split: list.splits)

text \<open>
  The frame \<open>send_to_peer\<close> builds is read back by the peer handler as the aggregate
  it was built from, and \<open>strip\<close> leaves it as it is.
\<close>

lemma send_to_peer_parse:
  "startswith (send_to_peer s) ''AGGREGATE'' \<and> strip (send_to_peer s) = send_to_peer s \<and>
   parse_aggregate (send_to_peer s) = Inr (random_share_aggregate s)"
proof -
  let ?a = "py_str (fst (random_share_aggregate s))"
  let ?b = "py_str (snd (random_share_aggregate s))"
  have f: "send_to_peer s = ''AGGREGATE'' @ CHR '','' # ?a @ CHR '','' # ?b"
    by (simp add: send_to_peer_def)
  have na: "CHR '','' \<notin> set ?a" and nb: "CHR '','' \<notin> set ?b"
    using py_str_chars by blast+
  have "split_comma (send_to_peer s) = ''AGGREGATE'' # split_comma (?a @ CHR '','' # ?b)"
    unfolding f by (rule split_comma_field(2)) simp
  also have "split_comma (?a @ CHR '','' # ?b) = [?a, ?b]"
    using split_comma_field(2) [OF na, of ?b] split_comma_field(1) [OF nb] by simp
  finally have sp: "split_comma (send_to_peer s) = [''AGGREGATE'', ?a, ?b]" .
  have p: "parse_aggregate (send_to_peer s) = Inr (random_share_aggregate s)"
    by (simp add: parse_aggregate_def sp py_int_py_str)
  have st: "startswith (send_to_peer s) ''AGGREGATE''"
    by (simp add: send_to_peer_def startswith_def)
  have "last (send_to_peer s) = last ?b"
    using py_str_chars [of "snd (random_share_aggregate s)"] by (simp add: f)
  then have "\<not> str_isspace (last (send_to_peer s))"
    using py_str_chars [of "snd (random_share_aggregate s)"] by simp
  moreover have "\<not> str_isspace (hd (send_to_peer s))"
    by (simp add: f str_isspace_def)
  ultimately have "strip (send_to_peer s) = send_to_peer s"
    unfolding strip_def by (intro strip_with_clean) (simp_all add: f)
  with st p show ?thesis by simp
qed

section \<open>Aggregation cancels the random shares\<close>

lemma compute_aggregates_fields:
  "received_ballots (fst (compute_aggregates s)) = received_ballots s"
  "random_shares (fst (compute_aggregates s)) = random_shares s"
  "peer_random_share_aggregate (fst (compute_aggregates s)) = peer_random_share_aggregate s"
  "candidates (fst (compute_aggregates s)) = candidates s"
  "total_voters_c (fst (compute_aggregates s)) = total_voters_c s"
  by (simp_all add: compute_aggregates_def)

lemma compute_aggregates_ballots:
  "secret_ballot_aggregate (fst (compute_aggregates s)) =
     (if received_ballots s = [] then secret_ballot_aggregate s
      else (sum_list (map fst (received_ballots s)), sum_list (map snd (received_ballots s))))"
  by (simp add: compute_aggregates_def)

lemma compute_aggregates_shares:
  "random_share_aggregate (fst (compute_aggregates s)) =
     (if random_shares s = [] then random_share_aggregate s
      else (sum_list (map fst (random_shares s)), sum_list (map snd (random_shares s))))"
  by (simp add: compute_aggregates_def)


lemma sum_list_mset_cong:
  fixes f :: "'a \<Rightarrow> int"
  assumes "mset xs = mset ys"
  shows "sum_list (map f xs) = sum_list (map f ys)"
proof -
  have "sum_mset (image_mset f (mset xs)) = sum_mset (image_mset f (mset ys))"
    using assms by simp
  then show ?thesis by (simp add: sum_mset_sum_list flip: mset_map)
qed

lemma handle_peer_message_final:
  assumes "startswith data ''AGGREGATE''" "parse_aggregate data = Inr peer"
  shows "Final_Result (final_result (fst (compute_aggregates (self\<lparr>peer_random_share_aggregate := peer\<rparr>))))
           \<in> set (snd (handle_peer_message self data))"
    and "fst (handle_peer_message self data) =
           fst (compute_aggregates (self\<lparr>peer_random_share_aggregate := peer\<rparr>))"
  using assms
  by (auto simp: handle_peer_message_def Let_def split: prod.splits sum.splits)

lemma sum_ballots:
  "sum_list (map (fst \<circ> ballot_of) vs) =
     sum_list (map (fst \<circ> fst) vs) + sum_list (map (fst \<circ> shares_of b) vs)
       + sum_list (map (fst \<circ> shares_of (\<not> b)) vs)"
  "sum_list (map (snd \<circ> ballot_of) vs) =
     sum_list (map (snd \<circ> fst) vs) + sum_list (map (snd \<circ> shares_of b) vs)
       + sum_list (map (snd \<circ> shares_of (\<not> b)) vs)"
  by (induction vs) (auto simp: ballot_of_def shares_of_def blind_def)

text \<open>
  The final result for any frame that is read as the aggregate the other collector
  computed.
\<close>

lemma final_result_of_frame:
  assumes ballots: "mset (received_ballots self) = mset (map ballot_of voters)"
    and own: "mset (random_shares self) = mset (map (shares_of (is_collector1 self)) voters)"
    and peer: "mset (random_shares other) = mset (map (shares_of (\<not> is_collector1 self)) voters)"
    and unset: "voters = [] \<Longrightarrow> secret_ballot_aggregate self = (0, 0) \<and>
                  random_share_aggregate self = (0, 0) \<and> random_share_aggregate other = (0, 0)"
    and frame: "startswith data ''AGGREGATE''"
      "parse_aggregate data = Inr (random_share_aggregate (fst (compute_aggregates other)))"
  shows "Final_Result (sum_list (map (fst \<circ> fst) voters), sum_list (map (snd \<circ> fst) voters))
           \<in> set (snd (handle_peer_message self data))"
proof -
  let ?b = "is_collector1 self"
  let ?pa = "random_share_aggregate (fst (compute_aggregates other))"
  let ?s = "\<lambda>p. fst (compute_aggregates (self\<lparr>peer_random_share_aggregate := p\<rparr>))"
  have e: "received_ballots self = [] \<longleftrightarrow> voters = []"
          "random_shares self = [] \<longleftrightarrow> voters = []"
          "random_shares other = [] \<longleftrightarrow> voters = []"
    using ballots own peer by (metis mset_zero_iff map_is_Nil_conv)+
  have sb: "\<And>p. secret_ballot_aggregate (?s p) =
      (sum_list (map (fst \<circ> ballot_of) voters), sum_list (map (snd \<circ> ballot_of) voters))"
    using e(1) unset sum_list_mset_cong [OF ballots, of fst] sum_list_mset_cong [OF ballots, of snd]
    by (auto simp: compute_aggregates_ballots)
  have rs: "\<And>p. random_share_aggregate (?s p) =
      (sum_list (map (fst \<circ> shares_of ?b) voters), sum_list (map (snd \<circ> shares_of ?b) voters))"
    using e(2) unset sum_list_mset_cong [OF own, of fst] sum_list_mset_cong [OF own, of snd]
    by (auto simp: compute_aggregates_shares)
  have pa: "?pa =
      (sum_list (map (fst \<circ> shares_of (\<not> ?b)) voters), sum_list (map (snd \<circ> shares_of (\<not> ?b)) voters))"
    using e(3) unset sum_list_mset_cong [OF peer, of fst] sum_list_mset_cong [OF peer, of snd]
    by (auto simp: compute_aggregates_shares)
  have "final_result (?s ?pa) =
      (sum_list (map (fst \<circ> fst) voters), sum_list (map (snd \<circ> fst) voters))"
    using sum_ballots [of voters ?b]
    by (simp add: final_result_def sb rs compute_aggregates_fields pa)
  then show ?thesis
    using handle_peer_message_final(1) [OF frame, of self] by simp
qed


text \<open>
  C1.  Any number of voters, each with its encoded ballot and the random shares the two
  collectors gave it.  A collector whose \<open>received_ballots\<close> are the voters' secret
  ballots in any order and whose \<open>random_shares\<close> are the shares it handed out in any
  order receives the frame the other collector sends after aggregating the shares that
  one handed out (in any order).  It prints, as final result, the componentwise sum of
  the encoded ballots, whether the frame is given to \<open>handle_peer_message\<close> or
  arrives on the peer endpoint.  (With no voter at all the aggregates are never
  written: they must still be the \<open>[0, 0]\<close> of \<open>__init__\<close>.)
\<close>

theorem C1_linearity:
  assumes ballots: "mset (received_ballots self) = mset (map ballot_of voters)"
    and own: "mset (random_shares self) = mset (map (shares_of (is_collector1 self)) voters)"
    and peer: "mset (random_shares other) = mset (map (shares_of (\<not> is_collector1 self)) voters)"
    and unset: "voters = [] \<Longrightarrow> secret_ballot_aggregate self = (0, 0) \<and>
                  random_share_aggregate self = (0, 0) \<and> random_share_aggregate other = (0, 0)"
  defines "frame \<equiv> send_to_peer (fst (compute_aggregates other))"
  defines "encoded_sum \<equiv> (sum_list (map (fst \<circ> fst) voters), sum_list (map (snd \<circ> fst) voters))"
  shows "Final_Result encoded_sum \<in> set (snd (handle_peer_message self frame)) \<and>
         Final_Result encoded_sum \<in> set (snd (snd (accept_on Peer_endpoint rnd self frame)))"
proof -
  note f = send_to_peer_parse [of "fst (compute_aggregates other)", folded frame_def]
  have 1: "Final_Result encoded_sum \<in> set (snd (handle_peer_message self frame))"
    unfolding encoded_sum_def
    using final_result_of_frame [OF ballots own peer unset] f by blast
  have "snd (snd (accept_on Peer_endpoint rnd self frame)) = snd (handle_peer_message self frame)"
    using f by (simp add: accept_on_def handle_voter_def Let_def case_prod_beta)
  with 1 show ?thesis by simp
qed

text \<open>
  Two voters with encoded ballots (1, 8) and (4, 2); the ballots arrive in the other
  order than the shares were handed out.  The other collector sends AGGREGATE,7,8.
\<close>

theorem C1_linearity_witness:
  "send_to_peer (fst (compute_aggregates
      ((CollectorServer ''127.0.0.1'' 65433 2 False [''R'', ''D''] [1, 7])
         \<lparr>received_ballots := [(9, 18), (7, 6)], random_shares := [(2, 2), (5, 6)]\<rparr>))) =
     ''AGGREGATE,7,8'' \<and>
   Final_Result (5, 10) \<in> set (snd (handle_peer_message
      ((CollectorServer ''127.0.0.1'' 65432 2 True [''R'', ''D''] [5, - 3])
         \<lparr>received_ballots := [(7, 6), (9, 18)], random_shares := [(3, 4), (1, 2)]\<rparr>)
      ''AGGREGATE,7,8''))"
proof -
  let ?voters = "[((1, 8), (3, 4), (5, 6)), ((4, 2), (1, 2), (2, 2))] :: voter_numbers list"
  let ?self = "(CollectorServer ''127.0.0.1'' 65432 2 True [''R'', ''D''] [5, - 3])
         \<lparr>received_ballots := [(7, 6), (9, 18)], random_shares := [(3, 4), (1, 2)]\<rparr>"
  let ?other = "(CollectorServer ''127.0.0.1'' 65433 2 False [''R'', ''D''] [1, 7])
         \<lparr>received_ballots := [(9, 18), (7, 6)], random_shares := [(2, 2), (5, 6)]\<rparr>"
  have 1: "mset (received_ballots ?self) = mset (map ballot_of ?voters)"
    by (simp add: ballot_of_def blind_def CollectorServer_def)
  have 2: "mset (random_shares ?self) = mset (map (shares_of (is_collector1 ?self)) ?voters)"
    by (simp add: shares_of_def CollectorServer_def)
  have 3: "mset (random_shares ?other) = mset (map (shares_of (\<not> is_collector1 ?self)) ?voters)"
    by (simp add: shares_of_def CollectorServer_def)
  have 4: "?voters = [] \<Longrightarrow> secret_ballot_aggregate ?self = (0, 0) \<and>
                  random_share_aggregate ?self = (0, 0) \<and> random_share_aggregate ?other = (0, 0)"
    by simp
  have 5: "send_to_peer (fst (compute_aggregates ?other)) = ''AGGREGATE,7,8''"
    by code_simp
  show ?thesis
    using C1_linearity [OF 1 2 3 4, of "(0, 0)"] unfolding 5 by (simp add: 5)
qed
section \<open>The tally decodes the sum of one-hot numbers\<close>

lemma bin_digits_nonempty: "bin_digits n \<noteq> []"
  by (subst bin_digits.simps) simp

lemma bin_digits_padded:
  "n < 2 ^ N \<Longrightarrow> 1 \<le> N \<Longrightarrow>
   length (bin_digits n) \<le> N \<and>
   replicate (N - length (bin_digits n)) CHR ''0'' @ bin_digits n =
     rev (map (\<lambda>i. bit_char (bit n i)) [0..<N])"
proof (induction N arbitrary: n)
  case 0
  then show ?case by simp
next
  case (Suc N)
  show ?case
  proof (cases "n < 2")
    case True
    then have bd: "bin_digits n = [bit_char (n = 1)]" by (subst bin_digits.simps) simp
    have z: "\<And>i. bit n (Suc i) = False" using True by (simp add: bit_Suc)
    have "n = 0 \<or> n = 1" using True by linarith
    then have o: "bit n 0 = (n = 1)" by (auto simp: bit_0)
    show ?thesis
      by (simp add: bd map_upt_Suc z o del: upt_Suc) (simp add: map_replicate_const bit_char_def)
  next
    case False
    then have bd: "bin_digits n = bin_digits (n div 2) @ [bit_char (n mod 2 = 1)]"
      by (subst bin_digits.simps) simp
    have N1: "1 \<le> N" using False Suc.prems by (cases N) auto
    have lt: "n div 2 < 2 ^ N" using Suc.prems by (simp add: less_mult_imp_div_less)
    note IH = Suc.IH [OF lt N1]
    have o: "bit n 0 = (n mod 2 = 1)" by (auto simp: bit_0 odd_iff_mod_2_eq_one)
    have "replicate (Suc N - length (bin_digits n)) CHR ''0'' @ bin_digits n =
          (replicate (N - length (bin_digits (n div 2))) CHR ''0'' @ bin_digits (n div 2))
             @ [bit_char (n mod 2 = 1)]"
      by (simp add: bd)
    also have "\<dots> = rev (map (\<lambda>i. bit_char (bit (n div 2) i)) [0..<N]) @ [bit_char (bit n 0)]"
      using IH by (simp add: o)
    also have "\<dots> = rev (map (\<lambda>i. bit_char (bit n i)) [0..<Suc N])"
      by (simp add: map_upt_Suc bit_Suc del: upt_Suc)
    finally show ?thesis using IH by (simp add: bd)
  qed
qed


lemma zfill_unsigned:
  assumes "s = c # cs" "c \<noteq> CHR ''+''" "c \<noteq> CHR ''-''" "length s \<le> N"
  shows "zfill s (int N) = replicate (N - length s) CHR ''0'' @ s"
proof (cases "int N \<le> int (length s)")
  case True
  then have "length s = N" using assms(4) by simp
  then show ?thesis by (simp add: zfill_def)
next
  case False
  have "nat (int N - int (length s)) = N - length s" by arith
  then show ?thesis using False assms(1,2,3) by (simp add: zfill_def Let_def)
qed

lemma zfill_bin_digits:
  assumes "n < 2 ^ N" "1 \<le> N"
  shows "zfill (bin_digits n) (int N) = rev (map (\<lambda>i. bit_char (bit n i)) [0..<N])"
proof -
  note p = bin_digits_padded [OF assms]
  obtain c cs where c: "bin_digits n = c # cs"
    using bin_digits_nonempty [of n] by (cases "bin_digits n") auto
  have "c \<in> set (rev (map (\<lambda>i. bit_char (bit n i)) [0..<N]))"
    using p c by (metis in_set_conv_decomp)
  then have sign: "c \<noteq> CHR ''+''" "c \<noteq> CHR ''-''" by (auto simp: bit_char_def)
  show ?thesis
    using zfill_unsigned [OF c sign, of N] p by simp
qed

lemma sum_pow2_horner:
  assumes "P \<subseteq> {0..<N}"
  shows "(\<Sum>p\<in>P. 2 ^ p) = (horner_sum of_bool 2 (map (\<lambda>i. i \<in> P) [0..<N]) :: nat)"
proof -
  have "(horner_sum of_bool 2 (map (\<lambda>i. i \<in> P) [0..<N]) :: nat) =
        (\<Sum>n = 0..<N. of_bool (n \<in> P) * 2 ^ n)"
    by (simp only: horner_sum_eq_sum length_map length_upt nth_map_upt diff_zero add_0) simp
  also have "\<dots> = (\<Sum>n = 0..<N. if n \<in> P then 2 ^ n else 0)"
    by (rule sum.cong) simp_all
  also have "\<dots> = sum (\<lambda>n. 2 ^ n) ({0..<N} \<inter> P)"
    using sum.inter_restrict [of "{0..<N}" "\<lambda>n. 2 ^ n :: nat" P] by simp
  also have "{0..<N} \<inter> P = P" using assms by auto
  finally show ?thesis by simp
qed

lemma bit_sum_pow2:
  assumes "P \<subseteq> {0..<N}"
  shows "bit (\<Sum>p\<in>P. 2 ^ p :: nat) q \<longleftrightarrow> q \<in> P"
  using assms by (auto simp: sum_pow2_horner [OF assms] bit_horner_sum_bit_iff)

lemma sum_pow2_less:
  assumes "P \<subseteq> {0..<N}"
  shows "(\<Sum>p\<in>P. 2 ^ p :: nat) < 2 ^ N"
  using horner_sum_bound [of "map (\<lambda>i. i \<in> P) [0..<N]", where ?'a = nat]
  by (simp add: sum_pow2_horner [OF assms])

lemma count_split_count:
  "count_split cands idx bs vc c =
     vc c + length (filter (\<lambda>i. bs ! i = CHR ''1'' \<and> cands ! (idx + i) = c) [0..<length bs])"
proof (induction bs arbitrary: idx vc)
  case Nil
  then show ?case by simp
next
  case (Cons b bs)
  have u: "[0..<length (b # bs)] = 0 # map Suc [0..<length bs]"
    by (simp add: upt_conv_Cons map_Suc_upt del: upt_Suc)
  show ?case
    unfolding u by (simp add: Cons.IH filter_map comp_def)
qed

lemma count_splits_append:
  "count_splits cands (xs @ ys) vc = count_splits cands ys (count_splits cands xs vc)"
  by (induction xs arbitrary: vc) simp_all

lemma count_split_bits:
  "count_split cands 0 (map (\<lambda>i. bit_char (k * C + i \<in> P)) [0..<C]) vc c =
     vc c + length (filter (\<lambda>i. k * C + i \<in> P \<and> cands ! i = c) [0..<C])"
proof -
  have "\<And>i. i < C \<Longrightarrow> (bit_char (k * C + i \<in> P) = CHR ''1'') = (k * C + i \<in> P)"
    by (simp add: bit_char_def)
  then have "filter (\<lambda>i. map (\<lambda>i. bit_char (k * C + i \<in> P)) [0..<C] ! i = CHR ''1'' \<and> cands ! i = c) [0..<C]
           = filter (\<lambda>i. k * C + i \<in> P \<and> cands ! i = c) [0..<C]"
    by (intro filter_cong) auto
  then show ?thesis by (simp add: count_split_count)
qed

lemma count_splits_bits:
  assumes "0 < C"
  shows "count_splits cands (map (\<lambda>k. map (\<lambda>i. bit_char (k * C + i \<in> P)) [0..<C]) [0..<V]) vc c =
     vc c + length (filter (\<lambda>p. p \<in> P \<and> cands ! (p mod C) = c) [0..<V * C])"
proof (induction V)
  case 0
  then show ?case by simp
next
  case (Suc V)
  have u: "[0..<Suc V * C] = [0..<V * C] @ map (\<lambda>i. V * C + i) [0..<C]"
    using map_add_upt [of "V * C" C] upt_add_eq_append [of 0 "V * C" C] by (simp add: add.commute)
  have f: "filter (\<lambda>i. V * C + i \<in> P \<and> cands ! (i mod C) = c) [0..<C] =
           filter (\<lambda>i. V * C + i \<in> P \<and> cands ! i = c) [0..<C]"
    by (intro filter_cong) auto
  have l: "[0..<Suc V] = [0..<V] @ [V]" by simp
  show ?case
    unfolding u l
    by (simp add: count_splits_append Suc.IH count_split_bits filter_map comp_def f del: upt_Suc)
qed

lemma slice_bound_nat: "slice_bound n (int m) = min m n"
  by (simp add: slice_bound_def)

lemma slice_bits:
  assumes "k < V"
  shows "py_slice (map f [0..<V * C]) (int k * int C) (int k * int C + int C) =
         map (\<lambda>i. f (k * C + i)) [0..<C]"
proof -
  have le: "k * C + C \<le> V * C"
  proof -
    have "Suc k * C \<le> V * C" using assms by (intro mult_le_mono1) simp
    then show ?thesis by (simp add: add.commute)
  qed
  have "slice_bound (V * C) (int (k * C)) = min (k * C) (V * C)"
    by (rule slice_bound_nat)
  then have a: "slice_bound (V * C) (int k * int C) = k * C"
    using le assms by (simp add: min_def)
  have "slice_bound (V * C) (int (k * C + C)) = min (k * C + C) (V * C)"
    by (rule slice_bound_nat)
  then have b: "slice_bound (V * C) (int k * int C + int C) = k * C + C"
    using le assms by (simp add: min_def)
  have "take C (drop (k * C) [0..<V * C]) = [k * C..<k * C + C]"
    using le by (simp add: take_upt)
  then have "take C (drop (k * C) (map f [0..<V * C])) = map f [k * C..<k * C + C]"
    by (simp only: drop_map take_map)
  also have "\<dots> = map (\<lambda>i. f (k * C + i)) [0..<C]"
  proof -
    have "[k * C..<k * C + C] = map (\<lambda>i. k * C + i) [0..<C]"
      using map_add_upt [of "k * C" C] by (simp add: add.commute)
    then show ?thesis by (simp only: map_map comp_def)
  qed
  finally show ?thesis by (simp add: py_slice_def a b)
qed

lemma py_range_chunks:
  assumes "0 < C"
  shows "py_range 0 (int V * int C) (int C) = Inr (map (\<lambda>k. int k * int C) [0..<V])"
proof -
  have "(int V * int C + int C - 1) div int C = int V"
  proof -
    have "(int V * int C + (int C - 1)) div int C = int V + (int C - 1) div int C"
      using assms by (simp add: div_mult_self3)
    also have "(int C - 1) div int C = 0" using assms by (simp add: div_pos_pos_trivial)
    finally show ?thesis by (simp add: algebra_simps)
  qed
  then show ?thesis using assms by (simp add: py_range_def)
qed

lemma py_range_none:
  assumes "0 < C" "bl \<le> 0"
  shows "py_range 0 bl (int C) = Inr []"
proof -
  have "(bl + int C - 1) div int C \<le> (int C - 1) div int C"
    using assms by (intro zdiv_mono1) simp_all
  also have "(int C - 1) div int C = 0" using assms by (simp add: div_pos_pos_trivial)
  finally have "(bl + int C - 1) div int C \<le> 0" .
  then show ?thesis using assms by (simp add: py_range_def)
qed

text \<open>
  One round of the tally on a bit string that is known: position \<open>j\<close> of the string
  is 1 exactly for the \<open>j\<close> in \<open>P\<close>.
\<close>

lemma tally_number_bits:
  assumes "cands \<noteq> []" "total_voters_c self = int V"
    and "(if i = 0 then rev (zfill (drop 2 (py_bin number)) (int V * int (length cands)))
          else zfill (drop 2 (py_bin number)) (int V * int (length cands))) =
         map (\<lambda>j. bit_char (j \<in> P)) [0..<V * length cands]"
  shows "tally_number self i number cands =
         Inr (Votes_from_Result (i + 1)
           (map (\<lambda>c. (c, length (filter (\<lambda>p. p \<in> P \<and> cands ! (p mod length cands) = c)
                                   [0..<V * length cands]))) cands))"
proof -
  let ?C = "length cands"
  have C: "0 < ?C" using assms(1) by simp
  have chunks: "map (\<lambda>j. py_slice (map (\<lambda>j. bit_char (j \<in> P)) [0..<V * ?C]) j (j + int ?C))
                  (map (\<lambda>k. int k * int ?C) [0..<V]) =
                map (\<lambda>k. map (\<lambda>i. bit_char (k * ?C + i \<in> P)) [0..<?C]) [0..<V]"
    by (simp add: slice_bits comp_def del: upt_Suc)
  show ?thesis
    unfolding tally_number_def Let_def assms(2)
    by (simp only: assms(3) py_range_chunks [OF C] sum.case chunks count_splits_bits [OF C]) simp
qed

lemma rev_map_upt: "rev (map f [0..<N]) = map (\<lambda>i. f (N - 1 - i)) [0..<N]"
  by (rule nth_equalityI) (simp_all add: rev_nth)

lemma count_positions:
  assumes "distinct ps" "set ps \<subseteq> {0..<N}"
  shows "length (filter (\<lambda>p. p \<in> set ps \<and> Q p) [0..<N]) = length (filter Q ps)"
proof -
  have "length (filter (\<lambda>p. p \<in> set ps \<and> Q p) [0..<N]) = card ({p. p \<in> set ps \<and> Q p} \<inter> set [0..<N])"
    by (rule distinct_length_filter) simp
  also have "{p. p \<in> set ps \<and> Q p} \<inter> set [0..<N] = {p. Q p} \<inter> set ps"
    using assms(2) by auto
  also have "card \<dots> = length (filter Q ps)"
    using distinct_length_filter [OF assms(1), of Q] by simp
  finally show ?thesis .
qed

lemma py_bin_nat: "drop 2 (py_bin (int m)) = bin_digits m"
  by (simp add: py_bin_def)

lemma number1_bits:
  assumes "distinct ps" "set ps \<subseteq> {0..<N}" "1 \<le> N"
  shows "rev (zfill (drop 2 (py_bin (sum_list (map (\<lambda>p. 2 ^ p) ps)))) (int N)) =
         map (\<lambda>j. bit_char (j \<in> set ps)) [0..<N]"
proof -
  let ?m = "\<Sum>p\<in>set ps. 2 ^ p :: nat"
  have "sum_list (map (\<lambda>p. 2 ^ p) ps) = int ?m"
    using assms(1) by (simp add: sum_list_distinct_conv_sum_set)
  then have "drop 2 (py_bin (sum_list (map (\<lambda>p. 2 ^ p) ps))) = bin_digits ?m"
    by (simp only: py_bin_nat)
  then show ?thesis
    using zfill_bin_digits [OF sum_pow2_less [OF assms(2)] assms(3)]
    by (simp only: bit_sum_pow2 [OF assms(2)] rev_rev_ident)
qed

lemma number2_bits:
  assumes "distinct ps" "set ps \<subseteq> {0..<N}" "1 \<le> N"
  shows "zfill (drop 2 (py_bin (sum_list (map (\<lambda>p. 2 ^ nat (int N - 1 - int p)) ps)))) (int N) =
         map (\<lambda>j. bit_char (j \<in> set ps)) [0..<N]"
proof -
  let ?Q = "(\<lambda>p. N - 1 - p) ` set ps"
  let ?m = "\<Sum>q\<in>?Q. 2 ^ q :: nat"
  have inj: "inj_on (\<lambda>p. N - 1 - p) (set ps)"
  proof (rule inj_onI)
    fix x y assume "x \<in> set ps" "y \<in> set ps" and e: "N - 1 - x = N - 1 - y"
    then have "x < N" "y < N" using assms(2) by auto
    then show "x = y" using e by arith
  qed
  have Q: "?Q \<subseteq> {0..<N}" using assms(2,3) by auto
  have e: "\<And>p. nat (int N - 1 - int p) = N - 1 - p" by simp
  have "sum_list (map (\<lambda>p. 2 ^ nat (int N - 1 - int p)) ps) = int (\<Sum>p\<in>set ps. 2 ^ (N - 1 - p))"
    using assms(1) by (simp add: sum_list_distinct_conv_sum_set e)
  also have "(\<Sum>p\<in>set ps. 2 ^ (N - 1 - p)) = ?m"
    using sum.reindex [OF inj, of "\<lambda>q. 2 ^ q :: nat"] by (simp add: comp_def)
  finally have d: "drop 2 (py_bin (sum_list (map (\<lambda>p. 2 ^ nat (int N - 1 - int p)) ps))) = bin_digits ?m"
    by (simp only: py_bin_nat)
  have z: "zfill (bin_digits ?m) (int N) = rev (map (\<lambda>i. bit_char (bit ?m i)) [0..<N])"
    by (rule zfill_bin_digits [OF sum_pow2_less [OF Q] assms(3)])
  have bits: "\<And>i. bit ?m i = (i \<in> ?Q)"
    by (rule bit_sum_pow2 [OF Q])
  have "zfill (drop 2 (py_bin (sum_list (map (\<lambda>p. 2 ^ nat (int N - 1 - int p)) ps)))) (int N) =
          rev (map (\<lambda>i. bit_char (i \<in> ?Q)) [0..<N])"
    by (simp only: d z bits)
  also have "\<dots> = map (\<lambda>i. bit_char (N - 1 - i \<in> ?Q)) [0..<N]"
    by (rule rev_map_upt)
  also have "\<dots> = map (\<lambda>j. bit_char (j \<in> set ps)) [0..<N]"
  proof (rule map_cong [OF refl])
    fix i assume "i \<in> set [0..<N]"
    then have i: "i < N" by simp
    have "N - 1 - i \<in> ?Q \<longleftrightarrow> i \<in> set ps"
    proof
      assume "N - 1 - i \<in> ?Q"
      then obtain p where p: "p \<in> set ps" "N - 1 - i = N - 1 - p" by auto
      then have "p < N" using assms(2) by auto
      then have "i = p" using p(2) i by simp
      then show "i \<in> set ps" using p(1) by simp
    next
      assume "i \<in> set ps"
      then show "N - 1 - i \<in> ?Q" by (rule imageI)
    qed
    then show "bit_char (N - 1 - i \<in> ?Q) = bit_char (i \<in> set ps)" by simp
  qed
  finally show ?thesis .
qed

lemma tally_number_no_voters:
  assumes "cands \<noteq> []" "total_voters_c self \<le> 0"
  shows "tally_number self i 0 cands = Inr (Votes_from_Result (i + 1) (map (\<lambda>c. (c, 0)) cands))"
proof -
  have "total_voters_c self * int (length cands) \<le> 0"
    using assms by (simp add: mult_le_0_iff)
  then have "py_range 0 (total_voters_c self * int (length cands)) (int (length cands)) = Inr []"
    using assms(1) by (intro py_range_none) simp_all
  then show ?thesis by (simp add: tally_number_def Let_def)
qed

text \<open>
  C3.  Voters at pairwise distinct positions \<open>ps\<close>, all in \<open>[0, N - 1]\<close> with
  \<open>N = total_voters * len(candidates)\<close>, and a candidate list that is not empty.  On
  the pair (sum of \<open>2 ^ p\<close>, sum of \<open>2 ^ (N - 1 - p)\<close>) \<open>tally_votes\<close> prints, for
  both numbers, the same counts: for each candidate of the list the number of voters
  whose position selects it, the candidate selected at position \<open>p\<close> being
  \<open>candidates[p mod len(candidates)]\<close>.
\<close>

theorem C3_tally_decode:
  fixes ps :: "nat list"
  assumes "cands \<noteq> []" "distinct ps"
    and "\<forall>p\<in>set ps. int p < total_voters_c self * int (length cands)"
  defines "N \<equiv> total_voters_c self * int (length cands)"
  defines "counts \<equiv> map (\<lambda>candidate.
      (candidate, length (filter (\<lambda>p. cands ! (p mod length cands) = candidate) ps))) cands"
  shows "tally_votes self
           (sum_list (map (\<lambda>p. 2 ^ p) ps), sum_list (map (\<lambda>p. 2 ^ nat (N - 1 - int p)) ps)) cands =
         Inr [Votes_from_Result 1 counts, Votes_from_Result 2 counts]"
proof (cases "total_voters_c self \<le> 0")
  case True
  then have "total_voters_c self * int (length cands) \<le> 0"
    by (simp add: mult_le_0_iff)
  then have "ps = []" using assms(3) by (cases ps) auto
  then show ?thesis
    using tally_number_no_voters [OF assms(1) True]
    by (simp add: tally_votes_def counts_def)
next
  case False
  define V where "V = nat (total_voters_c self)"
  have V: "total_voters_c self = int V" "1 \<le> V" using False by (simp_all add: V_def)
  let ?C = "length cands"
  have C: "1 \<le> ?C" using assms(1) by (cases cands) simp_all
  have N: "N = int (V * ?C)" by (simp add: N_def V)
  have N1: "1 \<le> V * ?C" using V(2) C by (simp add: Suc_le_eq)
  have sub: "set ps \<subseteq> {0..<V * ?C}" using assms(3) by (auto simp: V(1) simp flip: of_nat_mult)
  have il: "int V * int ?C = int (V * ?C)" by simp
  have c: "\<And>Q. length (filter (\<lambda>p. p \<in> set ps \<and> Q p) [0..<V * ?C]) = length (filter Q ps)"
    by (rule count_positions [OF assms(2) sub])
  have b1: "(if (0::nat) = 0 then rev (zfill (drop 2 (py_bin (sum_list (map (\<lambda>p. 2 ^ p) ps)))) (int V * int ?C))
          else zfill (drop 2 (py_bin (sum_list (map (\<lambda>p. 2 ^ p) ps)))) (int V * int ?C)) =
         map (\<lambda>j. bit_char (j \<in> set ps)) [0..<V * ?C]"
    using number1_bits [OF assms(2) sub N1] by simp
  have b2: "(if (1::nat) = 0 then rev (zfill (drop 2 (py_bin (sum_list (map (\<lambda>p. 2 ^ nat (N - 1 - int p)) ps)))) (int V * int ?C))
          else zfill (drop 2 (py_bin (sum_list (map (\<lambda>p. 2 ^ nat (N - 1 - int p)) ps)))) (int V * int ?C)) =
         map (\<lambda>j. bit_char (j \<in> set ps)) [0..<V * ?C]"
    using number2_bits [OF assms(2) sub N1] by (simp add: N)
  have t1: "tally_number self 0 (sum_list (map (\<lambda>p. 2 ^ p) ps)) cands = Inr (Votes_from_Result 1 counts)"
    using tally_number_bits [OF assms(1) V(1) b1] by (simp add: c counts_def)
  have t2: "tally_number self 1 (sum_list (map (\<lambda>p. 2 ^ nat (N - 1 - int p)) ps)) cands =
            Inr (Votes_from_Result 2 counts)"
    using tally_number_bits [OF assms(1) V(1) b2] by (simp add: c counts_def)
  show ?thesis by (simp only: tally_votes_def fst_conv snd_conv t1 t2 sum.case)
qed

text \<open>
  The example of the specification: candidates R and D, two voters, positions 0 and 3.
\<close>

theorem C3_tally_decode_witness:
  "tally_votes (CollectorServer ''127.0.0.1'' 65432 2 True [''R'', ''D''] [5, - 3]) (9, 9) [''R'', ''D''] =
     Inr [Votes_from_Result 1 [(''R'', 1), (''D'', 1)], Votes_from_Result 2 [(''R'', 1), (''D'', 1)]]"
proof -
  let ?self = "CollectorServer ''127.0.0.1'' 65432 2 True [''R'', ''D''] [5, - 3]"
  let ?cands = "[''R'', ''D'']"
  have tv: "total_voters_c ?self = 2" by (simp add: CollectorServer_def)
  have h: "\<forall>p\<in>set [0, 3 :: nat]. int p < total_voters_c ?self * int (length ?cands)"
    by (simp add: tv)
  have n1: "sum_list (map (\<lambda>p. 2 ^ p) [0, 3 :: nat]) = (9 :: int)" by simp
  have n2: "sum_list (map (\<lambda>p. 2 ^ nat (total_voters_c ?self * int (length ?cands) - 1 - int p))
              [0, 3 :: nat]) = (9 :: int)"
    by (simp add: tv)
  have cnt: "map (\<lambda>candidate.
      (candidate, length (filter (\<lambda>p. ?cands ! (p mod length ?cands) = candidate) [0, 3 :: nat]))) ?cands
      = [(''R'', 1), (''D'', 1)]"
    by code_simp
  have "tally_votes ?self
           (sum_list (map (\<lambda>p. 2 ^ p) [0, 3 :: nat]),
            sum_list (map (\<lambda>p. 2 ^ nat (total_voters_c ?self * int (length ?cands) - 1 - int p))
              [0, 3 :: nat])) ?cands =
         Inr [Votes_from_Result 1 (map (\<lambda>candidate.
      (candidate, length (filter (\<lambda>p. ?cands ! (p mod length ?cands) = candidate) [0, 3 :: nat]))) ?cands),
           Votes_from_Result 2 (map (\<lambda>candidate.
      (candidate, length (filter (\<lambda>p. ?cands ! (p mod length ?cands) = candidate) [0, 3 :: nat]))) ?cands)]"
    by (rule C3_tally_decode [OF _ _ h]) simp_all
  then show ?thesis unfolding n1 n2 cnt .
qed


section \<open>The two decoded count vectors are not compared\<close>

lemma py_range_positive:
  "0 < step \<Longrightarrow> \<exists>js. py_range start stop step = Inr js"
  by (simp add: py_range_def)

lemma tally_number_total:
  assumes "cands \<noteq> []"
  shows "\<exists>v. length v = length cands \<and>
             tally_number self i number cands = Inr (Votes_from_Result (i + 1) (zip cands v))"
proof -
  have z: "\<And>f :: string \<Rightarrow> nat. map (\<lambda>c. (c, f c)) cands = zip cands (map f cands)"
    by (simp add: zip_map2 zip_same_conv_map)
  obtain js where "py_range 0 (total_voters_c self * int (length cands)) (int (length cands)) = Inr js"
    using py_range_positive [of "int (length cands)"] assms by auto
  then show ?thesis
    by (simp add: tally_number_def Let_def z del: zip_map2) (metis length_map)
qed

text \<open>
  C5, as the code has it.  For a candidate list that is not empty \<open>tally_votes\<close>
  never raises: it prints one count per candidate for the first number and one per
  candidate for the second.  Each of the two lines depends on its own number only:
  changing the other number leaves it as it is.  The two lines are never compared.
\<close>

theorem C5_tally_prints_both:
  assumes "cands \<noteq> []"
  shows "\<exists>v1 v2. length v1 = length cands \<and> length v2 = length cands \<and>
           tally_votes self (a, b) cands =
             Inr [Votes_from_Result 1 (zip cands v1), Votes_from_Result 2 (zip cands v2)] \<and>
           (\<forall>b'. \<exists>v2'. tally_votes self (a, b') cands =
             Inr [Votes_from_Result 1 (zip cands v1), Votes_from_Result 2 (zip cands v2')]) \<and>
           (\<forall>a'. \<exists>v1'. tally_votes self (a', b) cands =
             Inr [Votes_from_Result 1 (zip cands v1'), Votes_from_Result 2 (zip cands v2)])"
proof -
  have o: "\<exists>v. length v = length cands \<and>
              tally_number self 0 n cands = Inr (Votes_from_Result 1 (zip cands v))" for n
    using tally_number_total [OF assms, of self 0 n] by (simp only: add_0)
  have t: "\<exists>v. length v = length cands \<and>
              tally_number self 1 n cands = Inr (Votes_from_Result 2 (zip cands v))" for n
    using tally_number_total [OF assms, of self 1 n] by (simp only: one_add_one)
  obtain v1 where v1: "length v1 = length cands"
      "tally_number self 0 a cands = Inr (Votes_from_Result 1 (zip cands v1))"
    using o by blast
  obtain v2 where v2: "length v2 = length cands"
      "tally_number self 1 b cands = Inr (Votes_from_Result 2 (zip cands v2))"
    using t by blast
  have 1: "tally_votes self (a, b) cands =
             Inr [Votes_from_Result 1 (zip cands v1), Votes_from_Result 2 (zip cands v2)]"
    by (simp only: tally_votes_def fst_conv snd_conv v1 v2 sum.case)
  have 2: "\<exists>v2'. tally_votes self (a, b') cands =
             Inr [Votes_from_Result 1 (zip cands v1), Votes_from_Result 2 (zip cands v2')]" for b'
  proof -
    obtain v where "tally_number self 1 b' cands = Inr (Votes_from_Result 2 (zip cands v))"
      using t by blast
    then have "tally_votes self (a, b') cands =
             Inr [Votes_from_Result 1 (zip cands v1), Votes_from_Result 2 (zip cands v)]"
      by (simp only: tally_votes_def fst_conv snd_conv v1 sum.case)
    then show ?thesis by blast
  qed
  have 3: "\<exists>v1'. tally_votes self (a', b) cands =
             Inr [Votes_from_Result 1 (zip cands v1'), Votes_from_Result 2 (zip cands v2)]" for a'
  proof -
    obtain v where "tally_number self 0 a' cands = Inr (Votes_from_Result 1 (zip cands v))"
      using o by blast
    then have "tally_votes self (a', b) cands =
             Inr [Votes_from_Result 1 (zip cands v), Votes_from_Result 2 (zip cands v2)]"
      by (simp only: tally_votes_def fst_conv snd_conv v2 sum.case)
    then show ?thesis by blast
  qed
  show ?thesis using v1(1) v2(1) 1 2 3 by blast
qed

theorem C5_tally_prints_both_witness:
  "\<exists>v1 v2. tally_votes (CollectorServer ''127.0.0.1'' 65432 1 True [''R'', ''D''] [0]) (1, 1) [''R'', ''D''] =
      Inr [Votes_from_Result 1 (zip [''R'', ''D''] v1), Votes_from_Result 2 (zip [''R'', ''D''] v2)]"
  using C5_tally_prints_both [of "[''R'', ''D'']" "CollectorServer ''127.0.0.1'' 65432 1 True [''R'', ''D''] [0]" 1 1]
  by auto

text \<open>
  C5 as stated fails.  One voter, candidates R and D, one ballot (1, 1) and a peer frame
  with aggregate (0, 0): the final result (1, 1) decodes to R = 1, D = 0 for the first
  number and to R = 0, D = 1 for the second.  Both lines are printed, nothing else is:
  no error, no comparison.
\<close>

theorem C5_counterexample:
  "handle_peer_message
     ((CollectorServer ''127.0.0.1'' 65432 1 True [''R'', ''D''] [0])\<lparr>received_ballots := [(1, 1)]\<rparr>)
     ''AGGREGATE,0,0'' =
   ((CollectorServer ''127.0.0.1'' 65432 1 True [''R'', ''D''] [0])
      \<lparr>received_ballots := [(1, 1)], secret_ballot_aggregate := (1, 1)\<rparr>,
    [Received_Random_Share_Aggregate_from_Peer (0, 0), No_Random_Shares_Generated,
     Secret_Ballot_Aggregate (1, 1), Random_Share_Aggregate (0, 0),
     Peer_Random_Share_Aggregate (0, 0), Final_Result (1, 1),
     Votes_from_Result 1 [(''R'', 1), (''D'', 0)],
     Votes_from_Result 2 [(''R'', 0), (''D'', 1)]])"
  by code_simp

section \<open>Malformed ballots are dropped\<close>


lemma parse_ballot_wellformed:
  assumes "split_comma data = [f1, f2]" "py_int f1 = Some n1" "py_int f2 = Some n2"
  shows "parse_ballot data = Inr (n1, n2)"
  using assms by (simp add: parse_ballot_def)



section \<open>Share requests index the location shares as Python does\<close>

text \<open>
  What \<open>generate_unique_location_shares\<close> returns: pairwise distinct values,
  \<open>total_voters\<close> of them (none for a negative \<open>total_voters\<close>).
\<close>

lemma generate_unique_location_shares_result:
  "generate_unique_location_shares tv draws shares = Some r \<Longrightarrow> distinct shares \<Longrightarrow>
   distinct r \<and> (int (length shares) \<le> tv \<longrightarrow> int (length r) = tv) \<and>
   (tv \<le> int (length shares) \<longrightarrow> r = shares)"
proof (induction draws arbitrary: shares)
  case Nil
  then show ?case by (auto split: if_splits)
next
  case (Cons share draws)
  show ?case
  proof (cases "int (length shares) < tv")
    case False
    then show ?thesis using Cons.prems by auto
  next
    case True
    let ?next = "if share \<notin> set shares then shares @ [share] else shares"
    have g: "generate_unique_location_shares tv draws ?next = Some r"
      using Cons.prems(1) True by simp
    have d: "distinct ?next" using Cons.prems(2) by simp
    have l: "int (length ?next) \<le> tv" using True by simp
    from Cons.IH [OF g d] l True show ?thesis by auto
  qed
qed

lemma location_shares_length:
  assumes "0 \<le> tv" "generate_unique_location_shares tv draws [] = Some shares"
  shows "int (length (location_shares (CollectorServer h p tv c1 cands shares))) =
         total_voters_c (CollectorServer h p tv c1 cands shares)"
  using generate_unique_location_shares_result [OF assms(2)] assms(1)
  by (simp add: CollectorServer_def)

text \<open>
  C9.  The collector holds one partial location share per voter (\<open>total_voters\<close> of
  them, as \<open>__init__\<close> generates them) and receives a share request with voter identifier \<open>vid\<close>.  For \<open>vid\<close> in
  \<open>[1 - V, V]\<close> the lookup \<open>location_shares[vid - 1]\<close> succeeds and the request is
  answered; for \<open>vid \<le> 0\<close> the value sent is the entry at index \<open>vid - 1 + V\<close>,
  the share of voter \<open>V + vid\<close>.  For every other \<open>vid\<close> the lookup raises IndexError:
  the error is printed, nothing is sent and the collector is unchanged.
\<close>

theorem C9_share_lookup_negative_index:
  assumes "int (length (location_shares self)) = total_voters_c self"
    and "CHR '','' \<notin> set data" "py_int data = Some vid"
  defines "V \<equiv> total_voters_c self"
  defines "ls \<equiv> location_shares self ! nat (if vid \<le> 0 then vid - 1 + V else vid - 1)"
  shows "(1 - V \<le> vid \<and> vid \<le> V \<longrightarrow>
            handle_voter_message rnd self data conn =
              (self\<lparr>random_shares := random_shares self @ [rnd]\<rparr>,
               conn\<lparr>sent := sent conn @
                 [Share_response (py_str ls @ '','' @ py_str (fst rnd) @ '','' @ py_str (snd rnd))]\<rparr>,
               [Sent_Location_Share (is_collector1 self) ls (fst rnd) (snd rnd) vid])) \<and>
         (vid < 1 - V \<or> V < vid \<longrightarrow>
            handle_voter_message rnd self data conn =
              (self, conn, [Error_processing_voter_message IndexError]))"
  using assms(1,2,3)
  by (auto simp: handle_voter_message_def py_getitem_def py_index_def Let_def
      generate_random_shares_def V_def ls_def)

text \<open>
  Two voters: identifier 0 is served the share of voter 2, identifier -2 is refused.
\<close>

theorem C9_share_lookup_negative_index_witness:
  "handle_voter_message (3, 4) (CollectorServer ''127.0.0.1'' 65432 2 True [''R'', ''D''] [5, - 3])
     ''0'' new_connection =
   ((CollectorServer ''127.0.0.1'' 65432 2 True [''R'', ''D''] [5, - 3])\<lparr>random_shares := [(3, 4)]\<rparr>,
    \<lparr>sent = [Share_response ''-3,3,4''], closed = False\<rparr>,
    [Sent_Location_Share True (- 3) 3 4 0]) \<and>
   handle_voter_message (3, 4) (CollectorServer ''127.0.0.1'' 65432 2 True [''R'', ''D''] [5, - 3])
     ''-2'' new_connection =
   (CollectorServer ''127.0.0.1'' 65432 2 True [''R'', ''D''] [5, - 3], new_connection,
    [Error_processing_voter_message IndexError])"
proof -
  let ?self = "CollectorServer ''127.0.0.1'' 65432 2 True [''R'', ''D''] [5, - 3]"
  have l: "int (length (location_shares ?self)) = total_voters_c ?self"
    by (simp add: CollectorServer_def)
  have c0: "CHR '','' \<notin> set ''0''" and c2: "CHR '','' \<notin> set ''-2''" by simp_all
  have p0: "py_int ''0'' = Some 0" and p2: "py_int ''-2'' = Some (- 2)" by code_simp+
  have r: "py_str (- 3) @ '','' @ py_str 3 @ '','' @ py_str 4 = ''-3,3,4''" by code_simp
  show ?thesis
    using C9_share_lookup_negative_index [OF l c0 p0, of "(3, 4)" new_connection]
      C9_share_lookup_negative_index [OF l c2 p2, of "(3, 4)" new_connection] r
    by (simp add: CollectorServer_def new_connection_def)
qed


section \<open>Messages are classified by their text\<close>







section \<open>The aggregates over a run of the collector\<close>








end
